theory Spec2Isabelle
  imports Complex_Main "HOL-Library.List_Lexorder" "HOL-Library.Char_ord"
begin

section \<open>Time steps and environments\<close>

text \<open>
  Modelled from the spec: the module \<^verbatim>\<open>tf_agents.environments.time_step\<close>, which
  the wrappers import as \<^verbatim>\<open>ts\<close>, is not among the sources; its types are taken as
  the wrappers and the tests use them. A \<^verbatim>\<open>TimeStep\<close> is a named tuple
  \<^verbatim>\<open>(step_type, reward, discount, observation)\<close> and \<^verbatim>\<open>StepType\<close> has
  the three values \<^verbatim>\<open>FIRST\<close>, \<^verbatim>\<open>MID\<close> and \<^verbatim>\<open>LAST\<close>. Rewards, discounts and
  observations are type parameters: the wrappers only add rewards and copy
  the other fields.
\<close>

datatype StepType = FIRST | MID | LAST

record ('r, 'd, 'o) TimeStep =
  step_type :: StepType
  reward :: 'r
  discount :: 'd
  observation :: 'o

definition is_first :: "('r, 'd, 'o) TimeStep \<Rightarrow> bool" where
  "is_first time_step = (step_type time_step = FIRST)"

definition is_last :: "('r, 'd, 'o) TimeStep \<Rightarrow> bool" where
  "is_last time_step = (step_type time_step = LAST)"

datatype py_error =
  ValueError | IndexError | KeyError | TypeError | AttributeError | UnboundLocalError

text \<open>
  Modelled from the spec: the base class \<^verbatim>\<open>py_environment.Base\<close> is not among the
  sources. A Python environment object is its method table together with its current
  state \<open>'s\<close>. \<^verbatim>\<open>reset\<close> and \<^verbatim>\<open>step\<close> return a time step and the new
  state; the spec methods and \<^verbatim>\<open>render\<close> read the state.
\<close>

record ('s, 'a, 'r, 'd, 'o, 'os, 'as, 'img) py_environment =
  reset :: "'s \<Rightarrow> ('r, 'd, 'o) TimeStep \<times> 's"
  step :: "'a \<Rightarrow> 's \<Rightarrow> ('r, 'd, 'o) TimeStep \<times> 's"
  observation_spec :: "'s \<Rightarrow> 'os"
  action_spec :: "'s \<Rightarrow> 'as"
  render :: "string \<Rightarrow> 's \<Rightarrow> 'img"

section \<open>PyEnvironmentBaseWrapper\<close>

text \<open>
  The wrapper object has the single field \<^verbatim>\<open>self._env\<close>; the subclasses extend
  the record with their own fields.
\<close>

record 's PyEnvironmentBaseWrapper =
  self_env :: 's

definition PyEnvironmentBaseWrapper_init :: "'s \<Rightarrow> 's PyEnvironmentBaseWrapper" where
  "PyEnvironmentBaseWrapper_init env_obj = \<lparr>self_env = env_obj\<rparr>"

definition PyEnvironmentBaseWrapper_reset ::
  "('s, 'a, 'r, 'd, 'o, 'os, 'as, 'img) py_environment \<Rightarrow>
   ('s, 'z) PyEnvironmentBaseWrapper_scheme \<Rightarrow>
   ('r, 'd, 'o) TimeStep \<times> ('s, 'z) PyEnvironmentBaseWrapper_scheme" where
  "PyEnvironmentBaseWrapper_reset env self =
     (case reset env (self_env self) of
        (time_step, e) \<Rightarrow> (time_step, self\<lparr>self_env := e\<rparr>))"

definition PyEnvironmentBaseWrapper_step ::
  "('s, 'a, 'r, 'd, 'o, 'os, 'as, 'img) py_environment \<Rightarrow> 'a \<Rightarrow>
   ('s, 'z) PyEnvironmentBaseWrapper_scheme \<Rightarrow>
   ('r, 'd, 'o) TimeStep \<times> ('s, 'z) PyEnvironmentBaseWrapper_scheme" where
  "PyEnvironmentBaseWrapper_step env action self =
     (case step env action (self_env self) of
        (time_step, e) \<Rightarrow> (time_step, self\<lparr>self_env := e\<rparr>))"

definition PyEnvironmentBaseWrapper_observation_spec ::
  "('s, 'a, 'r, 'd, 'o, 'os, 'as, 'img) py_environment \<Rightarrow>
   ('s, 'z) PyEnvironmentBaseWrapper_scheme \<Rightarrow> 'os" where
  "PyEnvironmentBaseWrapper_observation_spec env self = observation_spec env (self_env self)"

definition PyEnvironmentBaseWrapper_action_spec ::
  "('s, 'a, 'r, 'd, 'o, 'os, 'as, 'img) py_environment \<Rightarrow>
   ('s, 'z) PyEnvironmentBaseWrapper_scheme \<Rightarrow> 'as" where
  "PyEnvironmentBaseWrapper_action_spec env self = action_spec env (self_env self)"

definition PyEnvironmentBaseWrapper_render ::
  "('s, 'a, 'r, 'd, 'o, 'os, 'as, 'img) py_environment \<Rightarrow> string \<Rightarrow>
   ('s, 'z) PyEnvironmentBaseWrapper_scheme \<Rightarrow> 'img" where
  "PyEnvironmentBaseWrapper_render env mode self = render env mode (self_env self)"

definition wrapped_env :: "('s, 'z) PyEnvironmentBaseWrapper_scheme \<Rightarrow> 's" where
  "wrapped_env self = self_env self"

text \<open>The wrapper class seen as an environment again (wrappers can be chained).\<close>

definition PyEnvironmentBaseWrapper ::
  "('s, 'a, 'r, 'd, 'o, 'os, 'as, 'img) py_environment \<Rightarrow>
   ('s PyEnvironmentBaseWrapper, 'a, 'r, 'd, 'o, 'os, 'as, 'img) py_environment" where
  "PyEnvironmentBaseWrapper env =
     \<lparr>reset = PyEnvironmentBaseWrapper_reset env,
      step = PyEnvironmentBaseWrapper_step env,
      observation_spec = PyEnvironmentBaseWrapper_observation_spec env,
      action_spec = PyEnvironmentBaseWrapper_action_spec env,
      render = PyEnvironmentBaseWrapper_render env\<rparr>"

text \<open>
  A client of an environment: a sequence of method calls, and what each call
  returns. \<open>run\<close> performs the calls in order and collects the returned values.
\<close>

datatype 'a call =
  Reset | Step 'a | Observation_spec | Action_spec | Render string

datatype ('r, 'd, 'o, 'os, 'as, 'img) returned =
  Returned_time_step "('r, 'd, 'o) TimeStep"
  | Returned_observation_spec 'os
  | Returned_action_spec 'as
  | Returned_image 'img

fun perform ::
  "('s, 'a, 'r, 'd, 'o, 'os, 'as, 'img) py_environment \<Rightarrow> 'a call \<Rightarrow> 's \<Rightarrow>
   ('r, 'd, 'o, 'os, 'as, 'img) returned \<times> 's" where
  "perform env Reset s = (case reset env s of (t, s') \<Rightarrow> (Returned_time_step t, s'))"
| "perform env (Step a) s = (case step env a s of (t, s') \<Rightarrow> (Returned_time_step t, s'))"
| "perform env Observation_spec s = (Returned_observation_spec (observation_spec env s), s)"
| "perform env Action_spec s = (Returned_action_spec (action_spec env s), s)"
| "perform env (Render mode) s = (Returned_image (render env mode s), s)"

fun run ::
  "('s, 'a, 'r, 'd, 'o, 'os, 'as, 'img) py_environment \<Rightarrow> 'a call list \<Rightarrow> 's \<Rightarrow>
   ('r, 'd, 'o, 'os, 'as, 'img) returned list \<times> 's" where
  "run env [] s = ([], s)"
| "run env (c # cs) s =
     (case perform env c s of
        (r, s') \<Rightarrow> (case run env cs s' of (rs, s'') \<Rightarrow> (r # rs, s'')))"

section \<open>TimeLimit\<close>

record 's TimeLimit = "'s PyEnvironmentBaseWrapper" +
  self_duration :: int
  self_step :: "int option"

definition TimeLimit_init :: "'s \<Rightarrow> int \<Rightarrow> 's TimeLimit" where
  "TimeLimit_init env_obj duration =
     \<lparr>self_env = env_obj, self_duration = duration, self_step = None\<rparr>"

definition TimeLimit_reset ::
  "('s, 'a, 'r, 'd, 'o, 'os, 'as, 'img) py_environment \<Rightarrow> 's TimeLimit \<Rightarrow>
   ('r, 'd, 'o) TimeStep \<times> 's TimeLimit" where
  "TimeLimit_reset env self =
     (case reset env (self_env self) of
        (time_step, e) \<Rightarrow> (time_step, self\<lparr>self_env := e, self_step := Some 0\<rparr>))"

definition TimeLimit_step ::
  "('s, 'a, 'r, 'd, 'o, 'os, 'as, 'img) py_environment \<Rightarrow> 'a \<Rightarrow> 's TimeLimit \<Rightarrow>
   ('r, 'd, 'o) TimeStep \<times> 's TimeLimit" where
  "TimeLimit_step env action self =
     (case self_step self of
        None \<Rightarrow> TimeLimit_reset env self
      | Some n \<Rightarrow>
          (case step env action (self_env self) of
             (time_step, e) \<Rightarrow>
               let self = self\<lparr>self_env := e, self_step := Some (n + 1)\<rparr>;
                   time_step =
                     (if n + 1 \<ge> self_duration self
                      then time_step\<lparr>step_type := LAST\<rparr> else time_step);
                   self = (if is_last time_step then self\<lparr>self_step := None\<rparr> else self)
               in (time_step, self)))"

text \<open>Successive calls of \<^verbatim>\<open>step\<close>, one per action, with the time steps returned.\<close>

fun TimeLimit_steps ::
  "('s, 'a, 'r, 'd, 'o, 'os, 'as, 'img) py_environment \<Rightarrow> 'a list \<Rightarrow> 's TimeLimit \<Rightarrow>
   ('r, 'd, 'o) TimeStep list \<times> 's TimeLimit" where
  "TimeLimit_steps env [] self = ([], self)"
| "TimeLimit_steps env (a # as) self =
     (case TimeLimit_step env a self of
        (t, self') \<Rightarrow>
          (case TimeLimit_steps env as self' of (ts, self'') \<Rightarrow> (t # ts, self'')))"

text \<open>
  The wrapped environment stepped through a list of actions, with no wrapper
  in between.
\<close>

fun env_steps ::
  "('s, 'a, 'r, 'd, 'o, 'os, 'as, 'img) py_environment \<Rightarrow> 'a list \<Rightarrow> 's \<Rightarrow>
   ('r, 'd, 'o) TimeStep list \<times> 's" where
  "env_steps env [] e = ([], e)"
| "env_steps env (a # as) e =
     (case step env a e of
        (t, e') \<Rightarrow> (case env_steps env as e' of (ts, e'') \<Rightarrow> (t # ts, e'')))"

section \<open>ActionRepeat\<close>

record 's ActionRepeat = "'s PyEnvironmentBaseWrapper" +
  self_times :: int

definition ActionRepeat_init :: "'s \<Rightarrow> int \<Rightarrow> py_error + 's ActionRepeat" where
  "ActionRepeat_init env_obj times' =
     (if times' \<le> 1 then Inl ValueError
      else Inr \<lparr>self_env = env_obj, self_times = times'\<rparr>)"

text \<open>
  The body of \<^verbatim>\<open>for _ in range(self._times)\<close>: the first argument counts the
  iterations still to run, \<open>last_step\<close> is the variable \<^verbatim>\<open>time_step\<close>, unbound
  before the first iteration.
\<close>

fun ActionRepeat_loop ::
  "('s, 'a, 'r::{zero,plus}, 'd, 'o, 'os, 'as, 'img) py_environment \<Rightarrow> 'a \<Rightarrow> nat \<Rightarrow>
   'r \<Rightarrow> ('r, 'd, 'o) TimeStep option \<Rightarrow> 's \<Rightarrow>
   'r \<times> ('r, 'd, 'o) TimeStep option \<times> 's" where
  "ActionRepeat_loop env action 0 total_reward last_step e = (total_reward, last_step, e)"
| "ActionRepeat_loop env action (Suc n) total_reward last_step e =
     (case step env action e of
        (time_step, e') \<Rightarrow>
          let total_reward = total_reward + reward time_step in
          if is_last time_step then (total_reward, Some time_step, e')
          else ActionRepeat_loop env action n total_reward (Some time_step) e')"

definition ActionRepeat_step ::
  "('s, 'a, 'r::{zero,plus}, 'd, 'o, 'os, 'as, 'img) py_environment \<Rightarrow> 'a \<Rightarrow>
   's ActionRepeat \<Rightarrow> py_error + ('r, 'd, 'o) TimeStep \<times> 's ActionRepeat" where
  "ActionRepeat_step env action self =
     (case ActionRepeat_loop env action (nat (self_times self)) 0 None (self_env self) of
        (total_reward, None, e) \<Rightarrow> Inl UnboundLocalError
      | (total_reward, Some time_step, e) \<Rightarrow>
          Inr (\<lparr>step_type = step_type time_step, reward = total_reward,
                discount = discount time_step, observation = observation time_step\<rparr>,
               self\<lparr>self_env := e\<rparr>))"

text \<open>
  What the inner environment does when the same action is applied \<open>n\<close> times
  in a row, whatever it returns: the time steps, and the state reached.
\<close>

fun repeat_action ::
  "('s, 'a, 'r, 'd, 'o, 'os, 'as, 'img) py_environment \<Rightarrow> 'a \<Rightarrow> nat \<Rightarrow> 's \<Rightarrow>
   ('r, 'd, 'o) TimeStep list \<times> 's" where
  "repeat_action env action 0 e = ([], e)"
| "repeat_action env action (Suc n) e =
     (case step env action e of
        (t, e') \<Rightarrow> (case repeat_action env action n e' of (ts, e'') \<Rightarrow> (t # ts, e'')))"

text \<open>
  The number of inner steps that are to be taken: all \<open>n\<close> of them, or up to and
  including the first one that is LAST.
\<close>

definition steps_taken ::
  "('s, 'a, 'r, 'd, 'o, 'os, 'as, 'img) py_environment \<Rightarrow> 'a \<Rightarrow> nat \<Rightarrow> 's \<Rightarrow> nat" where
  "steps_taken env action n e =
     min n (Suc (length (takeWhile (\<lambda>t. \<not> is_last t) (fst (repeat_action env action n e)))))"

section \<open>Discounted returns\<close>




section \<open>Arrays\<close>

text \<open>
  A NumPy array is its shape and its elements in row-major (C) order, the
  order of \<^verbatim>\<open>flatten()\<close>, \<^verbatim>\<open>reshape\<close> and \<^verbatim>\<open>np.nditer\<close> on a C-contiguous
  array. A scalar has the shape \<open>[]\<close> and one element.
\<close>

record 'a ndarray =
  shape :: "nat list"
  elems :: "'a list"

definition well_formed :: "'a ndarray \<Rightarrow> bool" where
  "well_formed a = (length (elems a) = prod_list (shape a))"


text \<open>Flat position of a multi-index, and the multi-index of a flat position.\<close>

fun ravel :: "nat list \<Rightarrow> nat list \<Rightarrow> nat" where
  "ravel (n # S) (i # I) = i * prod_list S + ravel S I"
| "ravel S I = 0"

fun unravel :: "nat list \<Rightarrow> nat \<Rightarrow> nat list" where
  "unravel [] i = []"
| "unravel (n # S) i = (i div prod_list S) # unravel S (i mod prod_list S)"

definition item :: "'a ndarray \<Rightarrow> nat list \<Rightarrow> 'a" where
  "item a I = elems a ! ravel (shape a) I"

text \<open>
  Broadcasting: shapes are aligned at their last dimension, a missing
  dimension counts as 1, and a dimension of size 1 is repeated. \<open>project s I\<close>
  is the index into an array of shape \<open>s\<close> that the index \<open>I\<close> of the
  broadcast result reads.
\<close>

definition pad :: "nat \<Rightarrow> nat list \<Rightarrow> nat list" where
  "pad k s = replicate (k - length s) 1 @ s"

definition broadcastable :: "nat list \<Rightarrow> nat list \<Rightarrow> bool" where
  "broadcastable s S =
     (length s \<le> length S \<and> list_all2 (\<lambda>n N. n = N \<or> n = 1) (pad (length S) s) S)"


definition project :: "nat list \<Rightarrow> nat list \<Rightarrow> nat list" where
  "project s I =
     map2 (\<lambda>n i. if n = 1 then 0 else i) s (drop (length I - length s) I)"

definition broadcast_to :: "'a ndarray \<Rightarrow> nat list \<Rightarrow> py_error + 'a ndarray" where
  "broadcast_to a S =
     (if broadcastable (shape a) S
      then Inr \<lparr>shape = S,
                elems = map (\<lambda>i. item a (project (shape a) (unravel S i))) [0..<prod_list S]\<rparr>
      else Inl ValueError)"






section \<open>Array specs and nested structures\<close>



















section \<open>ActionDiscretizeWrapper\<close>










section \<open>ActionClipWrapper\<close>







section \<open>ActionOffsetWrapper\<close>










section \<open>FlattenObservationsWrapper\<close>




















section \<open>Example environments\<close>

text \<open>
  An environment that counts its steps and ends the episode at the third one;
  the reward of a step is the action taken.
\<close>

definition counter_env :: "(nat, int, int, int, nat, unit, unit, string) py_environment" where
  "counter_env =
     \<lparr>reset = (\<lambda>s. (\<lparr>step_type = FIRST, reward = 0, discount = 1, observation = 0\<rparr>, 0)),
      step = (\<lambda>a s. (\<lparr>step_type = (if 3 \<le> Suc s then LAST else MID), reward = a,
                          discount = 1, observation = Suc s\<rparr>, Suc s)),
      observation_spec = (\<lambda>s. ()),
      action_spec = (\<lambda>s. ()),
      render = (\<lambda>mode s. mode)\<rparr>"



section \<open>Properties of the base wrapper\<close>

lemma perform_PyEnvironmentBaseWrapper:
  "perform (PyEnvironmentBaseWrapper env) c \<lparr>self_env = s\<rparr> =
      (fst (perform env c s), \<lparr>self_env = snd (perform env c s)\<rparr>)"
  by (cases c)
    (simp_all add: PyEnvironmentBaseWrapper_def PyEnvironmentBaseWrapper_reset_def
      PyEnvironmentBaseWrapper_step_def PyEnvironmentBaseWrapper_observation_spec_def
      PyEnvironmentBaseWrapper_action_spec_def PyEnvironmentBaseWrapper_render_def
      split: prod.splits)

lemma run_PyEnvironmentBaseWrapper:
  "run (PyEnvironmentBaseWrapper env) cs \<lparr>self_env = s\<rparr> =
     (fst (run env cs s), \<lparr>self_env = snd (run env cs s)\<rparr>)"
proof (induction cs arbitrary: s)
  case Nil
  show ?case by simp
next
  case (Cons c cs)
  show ?case
    by (simp add: perform_PyEnvironmentBaseWrapper Cons.IH split: prod.splits)
qed

text \<open>
  C9. The base wrapper preserves behaviour: \<^verbatim>\<open>reset\<close>, \<^verbatim>\<open>step\<close>,
  \<^verbatim>\<open>observation_spec\<close>, \<^verbatim>\<open>action_spec\<close> and \<^verbatim>\<open>render\<close> return exactly what the
  wrapped environment's methods return and leave the wrapped environment in
  the state its own method leaves it in; hence any sequence of calls through
  the wrapper returns the same values as the same calls on the environment.
\<close>

theorem PyEnvironmentBaseWrapper_preserves_behaviour:
  "PyEnvironmentBaseWrapper_reset env \<lparr>self_env = s\<rparr> =
     (fst (reset env s), \<lparr>self_env = snd (reset env s)\<rparr>) \<and>
   PyEnvironmentBaseWrapper_step env a \<lparr>self_env = s\<rparr> =
     (fst (step env a s), \<lparr>self_env = snd (step env a s)\<rparr>) \<and>
   PyEnvironmentBaseWrapper_observation_spec env \<lparr>self_env = s\<rparr> = observation_spec env s \<and>
   PyEnvironmentBaseWrapper_action_spec env \<lparr>self_env = s\<rparr> = action_spec env s \<and>
   PyEnvironmentBaseWrapper_render env mode \<lparr>self_env = s\<rparr> = render env mode s \<and>
   run (PyEnvironmentBaseWrapper env) cs (PyEnvironmentBaseWrapper_init s) =
     (fst (run env cs s), \<lparr>self_env = snd (run env cs s)\<rparr>)"
  by (simp add: PyEnvironmentBaseWrapper_reset_def PyEnvironmentBaseWrapper_step_def
      PyEnvironmentBaseWrapper_observation_spec_def PyEnvironmentBaseWrapper_action_spec_def
      PyEnvironmentBaseWrapper_render_def PyEnvironmentBaseWrapper_init_def
      run_PyEnvironmentBaseWrapper split: prod.splits)

section \<open>Properties of TimeLimit\<close>

lemma TimeLimit_step_None:
  "self_step self = None \<Longrightarrow> TimeLimit_step env action self = TimeLimit_reset env self"
  by (simp add: TimeLimit_step_def)

lemma TimeLimit_reset_eq:
  "TimeLimit_reset env self =
     (fst (reset env (self_env self)),
      self\<lparr>self_env := snd (reset env (self_env self)), self_step := Some 0\<rparr>)"
  by (simp add: TimeLimit_reset_def split: prod.splits)

lemma TimeLimit_step_Some:
  "self_step self = Some n \<Longrightarrow>
   TimeLimit_step env action self =
     (let t = fst (step env action (self_env self));
          e = snd (step env action (self_env self));
          t' = (if self_duration self \<le> n + 1 then t\<lparr>step_type := LAST\<rparr> else t)
      in (t', self\<lparr>self_env := e,
                    self_step := (if is_last t' then None else Some (n + 1))\<rparr>))"
  by (simp add: TimeLimit_step_def Let_def split: prod.splits)

lemma TimeLimit_step_last_iff:
  "self_step self = Some n \<Longrightarrow> TimeLimit_step env action self = (t, self') \<Longrightarrow>
   (self_step self' = None) = is_last t"
  by (auto simp: TimeLimit_step_Some Let_def split: if_splits)

text \<open>
  C10. When no episode is active, that is on a freshly constructed wrapper or
  after a call of \<^verbatim>\<open>step\<close> during an episode has returned a LAST time step
  (the limit was reached, or the environment ended the episode),
  \<^verbatim>\<open>step\<close> resets the wrapped environment and returns the time step of that
  reset; the action plays no part in the result.
\<close>

theorem TimeLimit_step_resets_without_episode:
  assumes "self = TimeLimit_init env_obj duration \<or>
     (\<exists>prev a n t. self_step prev = Some n \<and> TimeLimit_step env a prev = (t, self) \<and> is_last t)"
  shows "TimeLimit_step env action self =
     (fst (reset env (self_env self)),
      self\<lparr>self_env := snd (reset env (self_env self)), self_step := Some 0\<rparr>)"
proof -
  have "self_step self = None"
    using assms
  proof
    assume "self = TimeLimit_init env_obj duration"
    then show ?thesis by (simp add: TimeLimit_init_def)
  next
    assume "\<exists>prev a n t. self_step prev = Some n \<and> TimeLimit_step env a prev = (t, self) \<and> is_last t"
    then obtain prev a n t where "self_step prev = Some n" "TimeLimit_step env a prev = (t, self)" "is_last t"
      by blast
    then show ?thesis using TimeLimit_step_last_iff [of prev n env a t self] by simp
  qed
  then show ?thesis by (simp add: TimeLimit_step_None TimeLimit_reset_eq)
qed

theorem TimeLimit_step_resets_without_episode_witness:
  "TimeLimit_step counter_env 7 \<lparr>self_env = 0, self_duration = 1, self_step = Some 0\<rparr> =
     (\<lparr>step_type = LAST, reward = 7, discount = 1, observation = 1\<rparr>,
      \<lparr>self_env = 1, self_duration = 1, self_step = None\<rparr>) \<and>
   TimeLimit_step counter_env 9 \<lparr>self_env = 1, self_duration = 1, self_step = None\<rparr> =
     (\<lparr>step_type = FIRST, reward = 0, discount = 1, observation = 0\<rparr>,
      \<lparr>self_env = 0, self_duration = 1, self_step = Some 0\<rparr>)"
proof -
  let ?prev = "\<lparr>self_env = 0::nat, self_duration = 1, self_step = Some 0\<rparr>"
  let ?self = "\<lparr>self_env = 1::nat, self_duration = 1, self_step = None\<rparr>"
  let ?t = "\<lparr>step_type = LAST, reward = 7::int, discount = 1::int, observation = 1::nat\<rparr>"
  have s: "TimeLimit_step counter_env 7 ?prev = (?t, ?self)"
    by (simp add: TimeLimit_step_def counter_env_def is_last_def)
  have "self_step ?prev = Some 0 \<and> TimeLimit_step counter_env 7 ?prev = (?t, ?self) \<and> is_last ?t"
    using s by (simp add: is_last_def)
  then have h: "?self = TimeLimit_init 0 1 \<or>
     (\<exists>prev a n t. self_step prev = Some n \<and> TimeLimit_step counter_env a prev = (t, ?self) \<and>
        is_last t)"
    by blast
  from TimeLimit_step_resets_without_episode [OF h, of 9] s
  show ?thesis by (simp add: counter_env_def)
qed

lemma TimeLimit_steps_length:
  "TimeLimit_steps env as self = (ts, self') \<Longrightarrow> length ts = length as"
  by (induction as arbitrary: self ts self') (auto split: prod.splits)

lemma TimeLimit_steps_append:
  "TimeLimit_steps env (as @ bs) self =
     (case TimeLimit_steps env as self of
        (ts, self') \<Rightarrow>
          (case TimeLimit_steps env bs self' of (us, self'') \<Rightarrow> (ts @ us, self'')))"
  by (induction as arbitrary: self) (auto split: prod.splits)

lemma TimeLimit_steps_running:
  "self_step self = Some k \<Longrightarrow> TimeLimit_steps env as self = (ts, self') \<Longrightarrow>
   \<forall>t \<in> set ts. \<not> is_last t \<Longrightarrow>
   self_step self' = Some (k + int (length as)) \<and>
   self_duration self' = self_duration self \<and>
   env_steps env as (self_env self) = (ts, self_env self')"
proof (induction as arbitrary: self k ts self')
  case Nil
  then show ?case by simp
next
  case (Cons a as)
  obtain t self1 where s1: "TimeLimit_step env a self = (t, self1)" by fastforce
  obtain ts1 self2 where s2: "TimeLimit_steps env as self1 = (ts1, self2)" by fastforce
  from Cons.prems(2) s1 s2 have ts: "ts = t # ts1" and self': "self' = self2" by simp_all
  from Cons.prems(3) ts have nl: "\<not> is_last t" and nls: "\<forall>t \<in> set ts1. \<not> is_last t" by simp_all
  from s1 nl Cons.prems(1)
  have st1: "self_step self1 = Some (k + 1)"
    and d1: "self_duration self1 = self_duration self"
    and e1: "step env a (self_env self) = (t, self_env self1)"
    by (auto simp: TimeLimit_step_Some Let_def is_last_def split: if_splits)
  from Cons.IH [OF st1 s2 nls]
  have "self_step self2 = Some (k + 1 + int (length as))"
    "self_duration self2 = self_duration self1"
    "env_steps env as (self_env self1) = (ts1, self_env self2)" by simp_all
  then show ?case using d1 e1 ts self' by simp
qed

lemma env_steps_append:
  "env_steps env (as @ bs) e =
     (case env_steps env as e of
        (ts, e') \<Rightarrow> (case env_steps env bs e' of (us, e'') \<Rightarrow> (ts @ us, e'')))"
  by (induction as arbitrary: e) (auto split: prod.splits)

lemma TimeLimit_step_at_duration:
  assumes s: "self_step self = Some n" and d: "self_duration self \<le> n + 1"
  shows "TimeLimit_step env a self =
     ((fst (step env a (self_env self)))\<lparr>step_type := LAST\<rparr>,
      self\<lparr>self_env := snd (step env a (self_env self)), self_step := None\<rparr>)"
  using d by (simp add: TimeLimit_step_Some [OF s] Let_def is_last_def)

text \<open>
  C2. After a reset (a call of \<^verbatim>\<open>reset\<close>, or a call of \<^verbatim>\<open>step\<close> that finds no
  episode active and resets), with a duration \<open>d \<ge> 1\<close>: among the next \<open>d\<close>
  calls of \<^verbatim>\<open>step\<close> one returns a LAST time step, and when none of the first
  \<open>d - 1\<close> does, the \<open>d\<close>-th call returns the time step of the wrapped
  environment with its step type replaced by LAST and leaves no episode
  active. So an episode never has more than \<open>d\<close> steps.
\<close>

theorem TimeLimit_ends_episode_at_duration:
  assumes d: "1 \<le> self_duration self0"
    and r: "TimeLimit_reset env self0 = (t0, self1) \<or>
            (self_step self0 = None \<and> TimeLimit_step env a0 self0 = (t0, self1))"
    and len: "int (length as) = self_duration self0"
    and run: "TimeLimit_steps env as self1 = (ts, self2)"
  shows "length ts = length as \<and> (\<exists>t \<in> set ts. is_last t) \<and>
     ((\<forall>t \<in> set (butlast ts). \<not> is_last t) \<longrightarrow>
        last ts = (last (fst (env_steps env as (self_env self1))))\<lparr>step_type := LAST\<rparr> \<and>
        self_step self2 = None)"
proof -
  from r have r': "TimeLimit_reset env self0 = (t0, self1)"
    by (auto simp: TimeLimit_step_None)
  then have s1: "self_step self1 = Some 0" and d1: "self_duration self1 = self_duration self0"
    by (auto simp: TimeLimit_reset_eq)
  from d len obtain bs b where as: "as = bs @ [b]"
    by (cases as rule: rev_cases) auto
  obtain us self' where u: "TimeLimit_steps env bs self1 = (us, self')" by fastforce
  obtain t self'' where t: "TimeLimit_step env b self' = (t, self'')" by fastforce
  from run as u t have ts: "ts = us @ [t]" and self2: "self2 = self''"
    by (simp_all add: TimeLimit_steps_append)
  have main: "t = (last (fst (env_steps env as (self_env self1))))\<lparr>step_type := LAST\<rparr> \<and>
      self_step self2 = None" if nlu: "\<forall>t \<in> set us. \<not> is_last t"
  proof -
    from TimeLimit_steps_running [OF s1 u nlu]
    have s': "self_step self' = Some (int (length bs))"
      and d': "self_duration self' = self_duration self1"
      and e': "env_steps env bs (self_env self1) = (us, self_env self')" by simp_all
    have dd: "self_duration self' \<le> int (length bs) + 1"
      using d' d1 len as by simp
    from TimeLimit_step_at_duration [OF s' dd, of env b] t
    have t': "t = (fst (step env b (self_env self')))\<lparr>step_type := LAST\<rparr>"
      and n: "self_step self'' = None" by auto
    have "last (fst (env_steps env as (self_env self1))) = fst (step env b (self_env self'))"
      by (simp add: as env_steps_append e' split: prod.splits)
    then show ?thesis using t' n self2 by simp
  qed
  have ex: "\<exists>t \<in> set ts. is_last t"
  proof (cases "\<forall>t \<in> set us. \<not> is_last t")
    case True
    from main [OF True] have "is_last t" by (simp add: is_last_def)
    then show ?thesis by (simp add: ts)
  next
    case False
    then show ?thesis by (auto simp: ts)
  qed
  have "length ts = length as" using run by (rule TimeLimit_steps_length)
  then show ?thesis using ex main by (simp add: ts)
qed

theorem TimeLimit_ends_episode_at_duration_witness:
  "TimeLimit_steps counter_env [5, 7]
      (snd (TimeLimit_reset counter_env (TimeLimit_init 4 2))) =
     ([\<lparr>step_type = MID, reward = 5, discount = 1, observation = 1\<rparr>,
       \<lparr>step_type = LAST, reward = 7, discount = 1, observation = 2\<rparr>],
      \<lparr>self_env = 2, self_duration = 2, self_step = None\<rparr>) \<and>
   fst (env_steps counter_env [5, 7] 0) =
     [\<lparr>step_type = MID, reward = 5, discount = 1, observation = 1\<rparr>,
      \<lparr>step_type = MID, reward = 7, discount = 1, observation = 2\<rparr>]"
proof -
  let ?self0 = "TimeLimit_init (4::nat) 2"
  let ?t0 = "\<lparr>step_type = FIRST, reward = 0::int, discount = 1::int, observation = 0::nat\<rparr>"
  let ?self1 = "\<lparr>self_env = 0::nat, self_duration = 2, self_step = Some 0\<rparr>"
  let ?ts = "[\<lparr>step_type = MID, reward = 5::int, discount = 1::int, observation = 1::nat\<rparr>,
       \<lparr>step_type = LAST, reward = 7, discount = 1, observation = 2\<rparr>]"
  let ?self2 = "\<lparr>self_env = 2::nat, self_duration = 2, self_step = None\<rparr>"
  have h1: "1 \<le> self_duration ?self0" by (simp add: TimeLimit_init_def)
  have r: "TimeLimit_reset counter_env ?self0 = (?t0, ?self1)"
    by (simp add: TimeLimit_reset_def TimeLimit_init_def counter_env_def)
  then have h2: "TimeLimit_reset counter_env ?self0 = (?t0, ?self1) \<or>
            (self_step ?self0 = None \<and> TimeLimit_step counter_env 0 ?self0 = (?t0, ?self1))"
    by simp
  have h3: "int (length [5, 7::int]) = self_duration ?self0" by (simp add: TimeLimit_init_def)
  have h4: "TimeLimit_steps counter_env [5, 7] ?self1 = (?ts, ?self2)"
    by (simp add: TimeLimit_step_def counter_env_def is_last_def)
  from TimeLimit_ends_episode_at_duration [OF h1 h2 h3 h4] r h4
  show ?thesis by (simp add: counter_env_def is_last_def)
qed

section \<open>Properties of ActionRepeat\<close>

text \<open>
  C8. The constructor raises ValueError exactly when \<open>times\<close> is not greater
  than 1; for \<open>times \<ge> 2\<close> it succeeds and stores the count unchanged.
\<close>

theorem ActionRepeat_init_raises_iff:
  "((\<exists>e. ActionRepeat_init env_obj t = Inl e) \<longleftrightarrow> \<not> 1 < t) \<and>
   (ActionRepeat_init env_obj t = Inl ValueError \<longleftrightarrow> \<not> 1 < t) \<and>
   (2 \<le> t \<longrightarrow> ActionRepeat_init env_obj t = Inr \<lparr>self_env = env_obj, self_times = t\<rparr>)"
  by (simp add: ActionRepeat_init_def)

theorem ActionRepeat_init_raises_iff_witness:
  "ActionRepeat_init (0::nat) 2 = Inr \<lparr>self_env = 0, self_times = 2\<rparr> \<and>
   ActionRepeat_init (0::nat) 1 = Inl ValueError"
  using ActionRepeat_init_raises_iff [of "0::nat" 2] ActionRepeat_init_raises_iff [of "0::nat" 1]
  by simp

lemma repeat_action_length: "length (fst (repeat_action env a n e)) = n"
  by (induction n arbitrary: e) (simp_all add: case_prod_beta)

lemma repeat_action_take:
  "k \<le> n \<Longrightarrow> fst (repeat_action env a k e) = take k (fst (repeat_action env a n e))"
proof (induction k arbitrary: n e)
  case 0
  then show ?case by simp
next
  case (Suc k)
  then obtain m where n: "n = Suc m" and km: "k \<le> m" by (cases n) auto
  show ?case using Suc.IH [OF km] by (simp add: n case_prod_beta)
qed

lemma steps_taken_0: "steps_taken env a 0 e = 0"
  by (simp add: steps_taken_def)

lemma steps_taken_Suc:
  "steps_taken env a (Suc n) e =
     (if is_last (fst (step env a e)) then 1
      else Suc (steps_taken env a n (snd (step env a e))))"
  by (simp add: steps_taken_def case_prod_beta)

lemma ActionRepeat_loop_eq:
  "ActionRepeat_loop env a n total_reward last_step e =
     (foldl (+) total_reward (map reward (fst (repeat_action env a (steps_taken env a n e) e))),
      (if steps_taken env a n e = 0 then last_step
       else Some (last (fst (repeat_action env a (steps_taken env a n e) e)))),
      snd (repeat_action env a (steps_taken env a n e) e))"
proof (induction n arbitrary: total_reward last_step e)
  case 0
  show ?case by (simp add: steps_taken_0)
next
  case (Suc n)
  obtain t e1 where st: "step env a e = (t, e1)" by fastforce
  show ?case
  proof (cases "is_last t")
    case True
    then show ?thesis using st by (simp add: steps_taken_Suc case_prod_beta)
  next
    case False
    define k where "k = steps_taken env a n e1"
    have len: "length (fst (repeat_action env a k e1)) = k" by (rule repeat_action_length)
    have e: "(fst (repeat_action env a k e1) = []) = (k = 0)"
      using len by (metis length_0_conv)
    show ?thesis
      using st False e
      by (simp add: steps_taken_Suc Suc.IH k_def [symmetric] Let_def case_prod_beta)
  qed
qed

lemma steps_taken_bounds: "0 < n \<Longrightarrow> 1 \<le> steps_taken env a n e \<and> steps_taken env a n e \<le> n"
  by (simp add: steps_taken_def)

lemma steps_taken_not_last_before:
  assumes "i < steps_taken env a n e - 1"
  shows "\<not> is_last (fst (repeat_action env a (steps_taken env a n e) e) ! i)"
proof -
  define tr where "tr = fst (repeat_action env a n e)"
  define k where "k = steps_taken env a n e"
  have k: "k = min n (Suc (length (takeWhile (\<lambda>t. \<not> is_last t) tr)))"
    by (simp add: k_def tr_def steps_taken_def)
  from assms have "i < k - 1" by (simp add: k_def)
  then have i: "i < length (takeWhile (\<lambda>t. \<not> is_last t) tr)" and ik: "i < k"
    using k by linarith+
  have "k \<le> n" using k by simp
  then have "fst (repeat_action env a k e) = take k tr"
    unfolding tr_def by (rule repeat_action_take)
  then have "fst (repeat_action env a k e) ! i = tr ! i"
    using ik by simp
  also have "tr ! i = takeWhile (\<lambda>t. \<not> is_last t) tr ! i"
    using i by (simp add: takeWhile_nth)
  finally have "fst (repeat_action env a k e) ! i \<in> set (takeWhile (\<lambda>t. \<not> is_last t) tr)"
    using i by simp
  then show ?thesis unfolding k_def by (auto dest: set_takeWhileD)
qed

lemma steps_taken_early_last:
  assumes "steps_taken env a n e < n"
  shows "is_last (last (fst (repeat_action env a (steps_taken env a n e) e)))"
proof -
  define tr where "tr = fst (repeat_action env a n e)"
  define k where "k = steps_taken env a n e"
  define m where "m = length (takeWhile (\<lambda>t. \<not> is_last t) tr)"
  have ltr: "length tr = n" by (simp add: tr_def repeat_action_length)
  have k: "k = min n (Suc m)"
    by (simp add: k_def tr_def m_def steps_taken_def)
  with assms have km: "k = Suc m" and mn: "m < n" by (simp_all add: k_def [symmetric])
  have "k \<le> n" using km mn by simp
  then have tk: "fst (repeat_action env a k e) = take k tr"
    unfolding tr_def by (rule repeat_action_take)
  have "last (take k tr) = tr ! m"
    using km mn ltr by (simp add: take_Suc_conv_app_nth)
  moreover have "\<not> \<not> is_last (tr ! m)"
    unfolding m_def by (rule nth_length_takeWhile) (use mn ltr in \<open>simp add: m_def\<close>)
  ultimately show ?thesis using tk by (simp add: k_def)
qed

text \<open>
  C4. With a repeat count of at least 2, \<^verbatim>\<open>step\<close> applies the action \<open>k\<close>
  times in a row to the wrapped environment, where \<open>1 \<le> k \<le> times\<close>, none of
  the first \<open>k - 1\<close> inner time steps is LAST and, when \<open>k < times\<close>, the
  \<open>k\<close>-th is LAST. It returns the step type, discount and observation of
  the last inner time step and, as reward, the rewards of the \<open>k\<close> inner
  steps added up from 0 in order.
\<close>

theorem ActionRepeat_step_accumulates_reward:
  assumes "2 \<le> self_times self"
  shows "let n = nat (self_times self);
             k = steps_taken env action n (self_env self);
             taken = fst (repeat_action env action k (self_env self));
             e' = snd (repeat_action env action k (self_env self))
         in 1 \<le> k \<and> k \<le> n \<and> length taken = k \<and>
            (\<forall>i<k - 1. \<not> is_last (taken ! i)) \<and>
            (k < n \<longrightarrow> is_last (last taken)) \<and>
            ActionRepeat_step env action self =
              Inr (\<lparr>step_type = step_type (last taken),
                    reward = foldl (+) 0 (map reward taken),
                    discount = discount (last taken),
                    observation = observation (last taken)\<rparr>,
                   self\<lparr>self_env := e'\<rparr>)"
proof -
  define n where "n = nat (self_times self)"
  define k where "k = steps_taken env action n (self_env self)"
  from assms have n0: "0 < n" by (simp add: n_def)
  from steps_taken_bounds [OF n0, of env action "self_env self"]
  have kb: "1 \<le> k" "k \<le> n" by (simp_all add: k_def)
  have 1: "\<forall>i<k - 1. \<not> is_last (fst (repeat_action env action k (self_env self)) ! i)"
    unfolding k_def by (intro allI impI) (rule steps_taken_not_last_before)
  have 2: "k < n \<longrightarrow> is_last (last (fst (repeat_action env action k (self_env self))))"
    unfolding k_def by (intro impI) (rule steps_taken_early_last)
  have 3: "ActionRepeat_step env action self =
              Inr (\<lparr>step_type = step_type (last (fst (repeat_action env action k (self_env self)))),
                    reward = foldl (+) 0 (map reward (fst (repeat_action env action k (self_env self)))),
                    discount = discount (last (fst (repeat_action env action k (self_env self)))),
                    observation = observation (last (fst (repeat_action env action k (self_env self))))\<rparr>,
                   self\<lparr>self_env := snd (repeat_action env action k (self_env self))\<rparr>)"
    using kb by (simp add: ActionRepeat_step_def ActionRepeat_loop_eq n_def [symmetric] k_def [symmetric])
  show ?thesis
    using kb 1 2 3 by (simp add: Let_def n_def [symmetric] k_def [symmetric] repeat_action_length)
qed

theorem ActionRepeat_step_accumulates_reward_witness:
  "ActionRepeat_step counter_env 4 \<lparr>self_env = 0, self_times = 5\<rparr> =
     Inr (\<lparr>step_type = LAST, reward = 12, discount = 1, observation = 3\<rparr>,
          \<lparr>self_env = 3, self_times = 5\<rparr>) \<and>
   steps_taken counter_env 4 5 0 = 3"
proof -
  let ?self = "\<lparr>self_env = 0::nat, self_times = 5\<rparr>"
  have h: "2 \<le> self_times ?self" by simp
  have k: "steps_taken counter_env 4 5 0 = 3"
    by (simp add: steps_taken_def counter_env_def is_last_def eval_nat_numeral)
  have r: "repeat_action counter_env 4 3 0 =
     ([\<lparr>step_type = MID, reward = 4, discount = 1, observation = 1\<rparr>,
       \<lparr>step_type = MID, reward = 4, discount = 1, observation = 2\<rparr>,
       \<lparr>step_type = LAST, reward = 4, discount = 1, observation = 3\<rparr>], 3)"
    by (simp add: counter_env_def eval_nat_numeral)
  from ActionRepeat_step_accumulates_reward [OF h, of counter_env 4]
  show ?thesis by (simp add: Let_def k r)
qed

section \<open>Properties of the discounted returns\<close>




section \<open>Properties of arrays and broadcasting\<close>

lemma unravel_valid: "i < prod_list S \<Longrightarrow> list_all2 (<) (unravel S i) S"
proof (induction S arbitrary: i)
  case Nil
  show ?case by simp
next
  case (Cons n S)
  from Cons.prems have pos: "0 < prod_list S" by (cases "prod_list S = 0") auto
  from Cons.prems have "i div prod_list S < n"
    by (simp add: less_mult_imp_div_less mult.commute)
  moreover have "i mod prod_list S < prod_list S" using pos by simp
  ultimately show ?case using Cons.IH by simp
qed


lemma ravel_less: "list_all2 (<) I S \<Longrightarrow> ravel S I < prod_list S"
proof (induction I S rule: list_all2_induct)
  case Nil
  show ?case by simp
next
  case (Cons i I n S)
  have "i * prod_list S + ravel S I < i * prod_list S + prod_list S"
    using Cons.IH by simp
  also have "\<dots> = Suc i * prod_list S" by simp
  also have "\<dots> \<le> n * prod_list S" using Cons.hyps(1) by (intro mult_le_mono1) simp
  finally show ?case by simp
qed


lemma length_unravel: "length (unravel S i) = length S"
  by (induction S arbitrary: i) simp_all

lemma broadcastable_iff:
  "broadcastable s S \<longleftrightarrow>
     length s \<le> length S \<and>
     list_all2 (\<lambda>n N. n = N \<or> n = 1) s (drop (length S - length s) S)"
proof (cases "length s \<le> length S")
  case False
  then show ?thesis by (simp add: broadcastable_def)
next
  case True
  define k where "k = length S - length s"
  have S: "S = take k S @ drop k S" by simp
  have lk: "length (take k S) = k" using True by (simp add: k_def)
  have ones: "list_all2 (\<lambda>n N. n = N \<or> n = 1) (replicate k 1) (take k S)"
    using lk by (simp add: list_all2_conv_all_nth)
  have "list_all2 (\<lambda>n N. n = N \<or> n = 1) (replicate k 1 @ s) (take k S @ drop k S) \<longleftrightarrow>
        list_all2 (\<lambda>n N. n = N \<or> n = 1) s (drop k S)"
    using ones lk by (subst list_all2_append) simp_all
  then show ?thesis using True by (simp add: broadcastable_def pad_def k_def [symmetric])
qed



lemma length_project: "length s \<le> length I \<Longrightarrow> length (project s I) = length s"
  by (simp add: project_def)

lemma project_nth:
  assumes "length s \<le> length I" "j < length s"
  shows "project s I ! j = (if s ! j = 1 then 0 else I ! (length I - length s + j))"
  using assms by (simp add: project_def)

lemma project_valid:
  assumes b: "broadcastable s S" and v: "list_all2 (<) I S"
  shows "list_all2 (<) (project s I) s"
proof -
  from v have l: "length I = length S" by (rule list_all2_lengthD)
  from b have ls: "length s \<le> length S"
    and r: "list_all2 (\<lambda>n N. n = N \<or> n = 1) s (drop (length S - length s) S)"
    by (simp_all add: broadcastable_iff)
  show ?thesis
  proof (rule list_all2_all_nthI)
    show "length (project s I) = length s" using ls l by (simp add: length_project)
  next
    fix j assume "j < length (project s I)"
    then have j: "j < length s" using ls l by (simp add: length_project)
    have rj: "s ! j = S ! (length S - length s + j) \<or> s ! j = 1"
      using r j ls by (auto simp: list_all2_conv_all_nth)
    have "I ! (length S - length s + j) < S ! (length S - length s + j)"
      using v j ls by (simp add: list_all2_conv_all_nth)
    then show "project s I ! j < s ! j"
      using rj j ls l by (auto simp: project_nth)
  qed
qed















lemma item_in_set:
  assumes w: "well_formed a" and b: "broadcastable (shape a) S" and v: "list_all2 (<) I S"
  shows "item a (project (shape a) I) \<in> set (elems a)"
proof -
  have "list_all2 (<) (project (shape a) I) (shape a)" using b v by (rule project_valid)
  then have "ravel (shape a) (project (shape a) I) < prod_list (shape a)" by (rule ravel_less)
  then show ?thesis using w by (simp add: item_def well_formed_def)
qed








section \<open>Properties of ActionOffsetWrapper\<close>












section \<open>Properties of ActionClipWrapper\<close>


















section \<open>Properties of ActionDiscretizeWrapper\<close>





lemma broadcast_to_Inr:
  assumes "broadcast_to a S = Inr b"
  shows "broadcastable (shape a) S \<and> shape b = S \<and> length (elems b) = prod_list S \<and>
         (\<forall>i<prod_list S. elems b ! i = item a (project (shape a) (unravel S i)))"
  using assms by (auto simp: broadcast_to_def split: if_splits)

lemma broadcast_to_elems_subset:
  assumes b: "broadcast_to a S = Inr b" and w: "well_formed a"
  shows "set (elems b) \<subseteq> set (elems a)"
proof
  fix x assume "x \<in> set (elems b)"
  then obtain i where i: "i < length (elems b)" and x: "x = elems b ! i"
    by (auto simp: in_set_conv_nth)
  from broadcast_to_Inr [OF b] i have bs: "broadcastable (shape a) S" and i': "i < prod_list S"
    and e: "elems b ! i = item a (project (shape a) (unravel S i))" by simp_all
  have "list_all2 (<) (unravel S i) S" using i' by (rule unravel_valid)
  from item_in_set [OF w bs this] show "x \<in> set (elems a)" by (simp add: x e)
qed








section \<open>Properties of FlattenObservationsWrapper\<close>



























end
